theory Spec2Isabelle
  imports Main "HOL-Library.Word"
begin

section \<open>Data model of \<open>main.cpp\<close>\<close>

text \<open>
  The program is a heap program: \<open>Observable\<close> objects are allocated with \<open>new\<close> and refer to
  each other (\<open>mappingObservable\<close>), to observer objects owned by the caller
  (\<open>mappingObserver\<close>, \<open>MappingObserver::observer\<close>) and to caller-owned storage
  (\<open>values\<close>, \<open>err\<close>). All of them are addresses into explicit stores here, and a pointer
  is an \<open>addr option\<close> with \<open>None\<close> for \<open>nullptr\<close>.

  The program is instantiated once, as \<open>Observable<int, const char *>\<close>: the value type is a
  32-bit \<open>int\<close>; the error type is left open, since the code only passes errors along.
\<close>

type_synonym addr = nat

type_synonym cint = "32 word"

text \<open>The three methods of \<open>class Observer\<close>, as the notification a call carries.\<close>

datatype 'e event = Next cint | Error 'e | Complete

text \<open>
  Undefined behaviour of the C++ is a fault of the model: dereferencing \<open>nullptr\<close>,
  dereferencing a pointer to storage or to an object that is not (or no longer) there, which
  includes the uninitialised \<open>MappingObserver::observer\<close>, and overflow of the signed
  multiplication in \<open>IntMapObserver::next\<close>.
\<close>

datatype fault = NullPointer | InvalidPointer | SignedOverflow

datatype 'a outcome = Returns 'a | Faults fault

text \<open>
  The observer objects of the program. \<open>IntObserver id\<close> only prints the notification it
  receives; \<open>IntMapObserver d f\<close> carries the field \<open>observer\<close> it inherits from
  \<open>MappingObserver\<close>, here \<open>d\<close> (not set by any constructor: \<open>None\<close>), and its own flag
  \<open>forward\<close>, here \<open>f\<close>.
\<close>

datatype observer_obj =
    IntObserver string
  | IntMapObserver "addr option" bool

text \<open>
  \<open>SubscribeHandler\<close> is a pointer to one of four member functions; \<open>nullptr\<close> is \<open>None\<close>
  in the field \<open>subscribeHandler\<close>.
\<close>

datatype handler = Handler_of | Handler_from | Handler_throwError | Handler_map

text \<open>The fields of \<open>class Observable\<close> (the field \<open>values\<close> is \<open>valuesp\<close>).\<close>

record observable =
  subscribeHandler :: "handler option"
  mappingObserver :: "addr option"
  mappingObservable :: "addr option"
  valuesp :: "addr option"
  valuesCount :: nat
  err :: "addr option"

text \<open>
  The whole store: the \<open>Observable\<close> objects in allocation order (the address of an
  Observable is its index), the caller's observer objects, the caller's \<open>int\<close> storage
  and error storage, and the record of every call made on an observer method, in order:
  \<open>(p, ev)\<close> is the call of the method of \<open>ev\<close> on the observer at \<open>p\<close>.
\<close>

record 'e state =
  observables :: "observable list"
  observers :: "addr \<rightharpoonup> observer_obj"
  vmem :: "addr \<rightharpoonup> cint"
  emem :: "addr \<rightharpoonup> 'e"
  calls :: "(addr \<times> 'e event) list"

section \<open>Sequencing\<close>

text \<open>
  A call either does not return (\<open>None\<close>), or ends in a fault, or returns a value; in the
  last two cases it leaves a store. \<open>and_then m k\<close> is the statement \<open>m\<close> followed by
  \<open>k\<close>: a fault or a call that does not return ends the execution there.
\<close>

definition and_then ::
  "('a outcome \<times> 's) option \<Rightarrow> ('a \<Rightarrow> 's \<Rightarrow> ('b outcome \<times> 's) option) \<Rightarrow>
   ('b outcome \<times> 's) option" where
  "and_then m k =
     (case m of
        None \<Rightarrow> None
      | Some (Faults x, s) \<Rightarrow> Some (Faults x, s)
      | Some (Returns a, s) \<Rightarrow> k a s)"

lemma and_then_mono [partial_function_mono]:
  assumes B: "mono_option B" and C: "\<And>a s. mono_option (\<lambda>f. C a s f)"
  shows "mono_option (\<lambda>f. and_then (B f) (\<lambda>a s. C a s f))"
proof -
  have eq: "and_then m k =
      Option.bind m (\<lambda>rs. case fst rs of Faults x \<Rightarrow> Some (Faults x, snd rs)
                                        | Returns a \<Rightarrow> k a (snd rs))" for m and k :: "'c \<Rightarrow> 'd \<Rightarrow> ('e outcome \<times> 'd) option"
    by (simp add: and_then_def split: option.split outcome.split prod.split)
  show ?thesis
    unfolding eq
  proof (rule bind_mono [OF B])
    fix y
    show "mono_option (\<lambda>f. case fst y of Faults x \<Rightarrow> Some (Faults x, snd y)
                                        | Returns a \<Rightarrow> C a (snd y) f)"
      by (cases "fst y") (simp_all add: C option.const_mono)
  qed
qed

section \<open>Observers\<close>

text \<open>\<open>forward = !forward\<close> on the \<open>IntMapObserver\<close> at \<open>p\<close>.\<close>

definition toggle_forward :: "'e state \<Rightarrow> addr \<Rightarrow> (unit outcome \<times> 'e state) option" where
  "toggle_forward s p =
     (case observers s p of
        Some (IntMapObserver d f) \<Rightarrow>
          Some (Returns (), s\<lparr>observers := (observers s)(p \<mapsto> IntMapObserver d (\<not> f))\<rparr>)
      | _ \<Rightarrow> Some (Faults InvalidPointer, s))"

text \<open>
  A virtual call \<open>p->next(v)\<close>, \<open>p->error(e)\<close> or \<open>p->complete()\<close>. The call is recorded,
  then the method of the object at \<open>p\<close> runs:
  \<^item> \<open>IntObserver\<close>: prints and returns;
  \<^item> \<open>IntMapObserver::next\<close>: \<open>if (forward) this->observer->next(2 * value);\<close> and then
    \<open>forward = !forward;\<close>
  \<^item> \<open>IntMapObserver::error\<close>, \<open>complete\<close>: the same call on \<open>this->observer\<close>.

  Nothing in the code keeps \<open>observer\<close> pointers from forming a cycle, so the call may
  not return: that is the value \<open>None\<close>.
\<close>

partial_function (option) notify ::
  "'e state \<Rightarrow> addr \<Rightarrow> 'e event \<Rightarrow> (unit outcome \<times> 'e state) option" where
  "notify s p ev =
     (case observers s p of
        None \<Rightarrow> Some (Faults InvalidPointer, s)
      | Some (IntObserver name) \<Rightarrow> Some (Returns (), s\<lparr>calls := calls s @ [(p, ev)]\<rparr>)
      | Some (IntMapObserver d f) \<Rightarrow>
          (let s1 = s\<lparr>calls := calls s @ [(p, ev)]\<rparr> in
           case ev of
             Next v \<Rightarrow>
               (if f then
                  (if - (2 ^ 31) \<le> 2 * sint v \<and> 2 * sint v < 2 ^ 31 then
                     (case d of
                        None \<Rightarrow> Some (Faults InvalidPointer, s1)
                      | Some q \<Rightarrow>
                          and_then (notify s1 q (Next (2 * v)))
                            (\<lambda>_ s2. toggle_forward s2 p))
                   else Some (Faults SignedOverflow, s1))
                else toggle_forward s1 p)
           | Error e \<Rightarrow>
               (case d of
                  None \<Rightarrow> Some (Faults InvalidPointer, s1)
                | Some q \<Rightarrow> notify s1 q (Error e))
           | Complete \<Rightarrow>
               (case d of
                  None \<Rightarrow> Some (Faults InvalidPointer, s1)
                | Some q \<Rightarrow> notify s1 q Complete)))"

section \<open>Observable\<close>

text \<open>The private constructor \<open>Observable()\<close>; it leaves \<open>mappingObserver\<close> unset.\<close>

definition Observable :: observable where
  "Observable =
     \<lparr>subscribeHandler = None, mappingObserver = None, mappingObservable = None,
      valuesp = None, valuesCount = 0, err = None\<rparr>"

text \<open>\<open>new Observable()\<close> followed by the assignments of a factory: a fresh address.\<close>

definition new :: "'e state \<Rightarrow> observable \<Rightarrow> 'e state \<times> addr" where
  "new s ob = (s\<lparr>observables := observables s @ [ob]\<rparr>, length (observables s))"

text \<open>
  The factories \<open>Observable::of\<close>, \<open>from\<close>, \<open>throwError\<close> and the method \<open>map\<close>. \<open>of\<close> and
  \<open>throwError\<close> take a reference, stored as the address of the caller's object; \<open>from\<close>
  takes a pointer and a count.
\<close>

definition Observable_of :: "'e state \<Rightarrow> addr \<Rightarrow> 'e state \<times> addr" where
  "Observable_of s value =
     new s (Observable\<lparr>subscribeHandler := Some Handler_of, valuesp := Some value\<rparr>)"

definition Observable_from :: "'e state \<Rightarrow> addr option \<Rightarrow> nat \<Rightarrow> 'e state \<times> addr" where
  "Observable_from s vals count =
     new s (Observable\<lparr>subscribeHandler := Some Handler_from, valuesp := vals,
                       valuesCount := count\<rparr>)"

definition Observable_throwError :: "'e state \<Rightarrow> addr \<Rightarrow> 'e state \<times> addr" where
  "Observable_throwError s e =
     new s (Observable\<lparr>subscribeHandler := Some Handler_throwError, err := Some e\<rparr>)"

definition Observable_map :: "'e state \<Rightarrow> addr \<Rightarrow> addr \<Rightarrow> 'e state \<times> addr" where
  "Observable_map s this m =
     new s (Observable\<lparr>subscribeHandler := Some Handler_map, mappingObserver := Some m,
                       mappingObservable := Some this\<rparr>)"

text \<open>\<open>subscribeHandler = nullptr;\<close> in the Observable at \<open>this\<close>.\<close>

definition clear_subscribeHandler :: "'e state \<Rightarrow> addr \<Rightarrow> 'e state" where
  "clear_subscribeHandler s this =
     s\<lparr>observables :=
         (observables s)[this := (observables s ! this)\<lparr>subscribeHandler := None\<rparr>]\<rparr>"

text \<open>
  The handlers run on a live \<open>this\<close>: \<open>subscribe\<close> below is their only caller and checks it.
\<close>

definition subscribeHandler_of ::
  "'e state \<Rightarrow> addr \<Rightarrow> addr \<Rightarrow> (addr outcome \<times> 'e state) option" where
  "subscribeHandler_of s this observer =
     (case valuesp (observables s ! this) of
        None \<Rightarrow> Some (Faults NullPointer, s)
      | Some p \<Rightarrow>
          (case vmem s p of
             None \<Rightarrow> Some (Faults InvalidPointer, s)
           | Some v \<Rightarrow>
               and_then (notify s observer (Next v)) (\<lambda>_ s1.
               and_then (notify s1 observer Complete) (\<lambda>_ s2.
               Some (Returns this, clear_subscribeHandler s2 this)))))"

text \<open>
  \<open>for (size_t i = 0; i < valuesCount; i++) observer->next(values[i]);\<close> from \<open>i\<close> on.
  The fields are read again in every round, as the loop does.
\<close>

partial_function (option) from_loop ::
  "'e state \<Rightarrow> addr \<Rightarrow> addr \<Rightarrow> nat \<Rightarrow> (unit outcome \<times> 'e state) option" where
  "from_loop s this observer i =
     (if i < valuesCount (observables s ! this) then
        (case valuesp (observables s ! this) of
           None \<Rightarrow> Some (Faults NullPointer, s)
         | Some p \<Rightarrow>
             (case vmem s (p + i) of
                None \<Rightarrow> Some (Faults InvalidPointer, s)
              | Some v \<Rightarrow>
                  and_then (notify s observer (Next v)) (\<lambda>_ s1.
                  from_loop s1 this observer (i + 1))))
      else Some (Returns (), s))"

definition subscribeHandler_from ::
  "'e state \<Rightarrow> addr \<Rightarrow> addr \<Rightarrow> (addr outcome \<times> 'e state) option" where
  "subscribeHandler_from s this observer =
     and_then (from_loop s this observer 0) (\<lambda>_ s1.
     and_then (notify s1 observer Complete) (\<lambda>_ s2.
     Some (Returns this, clear_subscribeHandler s2 this)))"

definition subscribeHandler_throwError ::
  "'e state \<Rightarrow> addr \<Rightarrow> addr \<Rightarrow> (addr outcome \<times> 'e state) option" where
  "subscribeHandler_throwError s this observer =
     (case err (observables s ! this) of
        None \<Rightarrow> Some (Faults NullPointer, s)
      | Some p \<Rightarrow>
          (case emem s p of
             None \<Rightarrow> Some (Faults InvalidPointer, s)
           | Some e \<Rightarrow>
               and_then (notify s observer (Error e)) (\<lambda>_ s1.
               and_then (notify s1 observer Complete) (\<lambda>_ s2.
               Some (Returns this, clear_subscribeHandler s2 this)))))"

text \<open>\<open>mappingObserver->observer = observer;\<close> for the mapping observer at \<open>m\<close>.\<close>

definition set_observer :: "'e state \<Rightarrow> addr \<Rightarrow> addr \<Rightarrow> (unit outcome \<times> 'e state) option" where
  "set_observer s m observer =
     (case observers s m of
        Some (IntMapObserver d f) \<Rightarrow>
          Some (Returns (), s\<lparr>observers := (observers s)(m \<mapsto> IntMapObserver (Some observer) f)\<rparr>)
      | _ \<Rightarrow> Some (Faults InvalidPointer, s))"

text \<open>
  \<open>subscribe\<close> calls the stored handler, or returns \<open>this\<close> when there is none. The handler
  \<open>subscribeHandler_map\<close> calls \<open>subscribe\<close> of the upstream Observable in turn, so its body
  stands in the last branch: \<open>mappingObserver->observer = observer;\<close> and then
  \<open>return mappingObservable->subscribe(*mappingObserver);\<close>
\<close>

partial_function (option) subscribe ::
  "'e state \<Rightarrow> addr \<Rightarrow> addr \<Rightarrow> (addr outcome \<times> 'e state) option" where
  "subscribe s this observer =
     (if this < length (observables s) then
        (case subscribeHandler (observables s ! this) of
           None \<Rightarrow> Some (Returns this, s)
         | Some Handler_of \<Rightarrow> subscribeHandler_of s this observer
         | Some Handler_from \<Rightarrow> subscribeHandler_from s this observer
         | Some Handler_throwError \<Rightarrow> subscribeHandler_throwError s this observer
         | Some Handler_map \<Rightarrow>
             (case mappingObserver (observables s ! this) of
                None \<Rightarrow> Some (Faults NullPointer, s)
              | Some m \<Rightarrow>
                  and_then (set_observer s m observer) (\<lambda>_ s1.
                  (case mappingObservable (observables s1 ! this) of
                     None \<Rightarrow> Some (Faults NullPointer, s1)
                   | Some u \<Rightarrow> subscribe s1 u m))))
      else Some (Faults InvalidPointer, s))"

definition subscribeHandler_map ::
  "'e state \<Rightarrow> addr \<Rightarrow> addr \<Rightarrow> (addr outcome \<times> 'e state) option" where
  "subscribeHandler_map s this observer =
     (case mappingObserver (observables s ! this) of
        None \<Rightarrow> Some (Faults NullPointer, s)
      | Some m \<Rightarrow>
          and_then (set_observer s m observer) (\<lambda>_ s1.
          (case mappingObservable (observables s1 ! this) of
             None \<Rightarrow> Some (Faults NullPointer, s1)
           | Some u \<Rightarrow> subscribe s1 u m)))"

text \<open>\<open>unsubscribe\<close>: \<open>values = nullptr; valuesCount = 0; err = nullptr;\<close>\<close>

definition unsubscribe :: "'e state \<Rightarrow> addr \<Rightarrow> (unit outcome \<times> 'e state) option" where
  "unsubscribe s this =
     (if this < length (observables s) then
        Some (Returns (),
          s\<lparr>observables :=
              (observables s)[this := (observables s ! this)
                 \<lparr>valuesp := None, valuesCount := 0, err := None\<rparr>]\<rparr>)
      else Some (Faults InvalidPointer, s))"

section \<open>The objects of \<open>main\<close>\<close>

text \<open>
  The store \<open>main\<close> works on before it creates its first Observable: \<open>myIntObserver\<close> at
  observer address 0, \<open>myMappingObserver\<close> at 1, the array \<open>series\<close> at addresses 0 to 6 of
  the \<open>int\<close> storage, the \<open>1\<close> passed to \<open>of\<close> behind it, and the error text.
\<close>

definition series :: "cint list" where
  "series = [1, - 2, 3, - 4, 5, - 6, 7]"

definition main_state :: "string state" where
  "main_state =
     \<lparr>observables = [],
      observers = [0 \<mapsto> IntObserver ''IntObs'', 1 \<mapsto> IntMapObserver None True],
      vmem = (\<lambda>a. if a < length series then Some (series ! a)
                  else if a = length series then Some 1 else None),
      emem = [0 \<mapsto> ''An error occured!''],
      calls = []\<rparr>"

text \<open>
  The Observables \<open>main\<close> creates, each from the store above: \<open>of(1)\<close>,
  \<open>from(series, 7)\<close>, that one mapped with \<open>myMappingObserver\<close>, and
  \<open>throwError("An error occured!")\<close>.
\<close>

definition singleIntObservable :: "string state \<times> addr" where
  "singleIntObservable = Observable_of main_state 7"

definition intSeriesObservable :: "string state \<times> addr" where
  "intSeriesObservable = Observable_from main_state (Some 0) 7"

definition mappedSeriesObservable :: "string state \<times> addr" where
  "mappedSeriesObservable =
     Observable_map (fst intSeriesObservable) (snd intSeriesObservable) 1"

definition errorObservable :: "string state \<times> addr" where
  "errorObservable = Observable_throwError main_state 0"

text \<open>
  The same store once \<open>myMappingObserver\<close> has \<open>myIntObserver\<close> as its \<open>observer\<close>, as
  \<open>subscribeHandler_map\<close> sets it in the test case \<open>map\<close>.
\<close>

definition linked_state :: "string state" where
  "linked_state = main_state\<lparr>observers := (observers main_state)(1 \<mapsto> IntMapObserver (Some 0) True)\<rparr>"

section \<open>Notions the properties are stated with\<close>

text \<open>
  The notifications among the calls \<open>cs\<close> that went to the observer at \<open>q\<close>, in order, and
  all those a store has on record for it.
\<close>

definition events_for :: "addr \<Rightarrow> (addr \<times> 'e event) list \<Rightarrow> 'e event list" where
  "events_for q cs = map snd (filter (\<lambda>c. fst c = q) cs)"

definition calls_on :: "addr \<Rightarrow> 'e state \<Rightarrow> 'e event list" where
  "calls_on q s = events_for q (calls s)"

text \<open>Which of the three methods a notification is a call of.\<close>

datatype kind = KNext | KError | KComplete

fun kind_of :: "'e event \<Rightarrow> kind" where
  "kind_of (Next v) = KNext"
| "kind_of (Error e) = KError"
| "kind_of Complete = KComplete"



text \<open>No notification, or a single one of kind \<open>k\<close>.\<close>

definition at_most :: "kind \<Rightarrow> 'e event list \<Rightarrow> bool" where
  "at_most k es = (case es of [] \<Rightarrow> True | [e] \<Rightarrow> kind_of e = k | _ \<Rightarrow> False)"

text \<open>
  \<open>upstream_root os this r\<close>: following \<open>mappingObservable\<close> from the Observable at \<open>this\<close>
  for as long as the handler is \<open>subscribeHandler_map\<close> ends at the Observable at \<open>r\<close>.
\<close>

inductive upstream_root :: "observable list \<Rightarrow> addr \<Rightarrow> addr \<Rightarrow> bool" for os where
  self: "this < length os \<Longrightarrow> subscribeHandler (os ! this) \<noteq> Some Handler_map \<Longrightarrow>
         upstream_root os this this"
| up: "this < length os \<Longrightarrow> subscribeHandler (os ! this) = Some Handler_map \<Longrightarrow>
       mappingObservable (os ! this) = Some u \<Longrightarrow> upstream_root os u r \<Longrightarrow>
       upstream_root os this r"

code_pred upstream_root .

text \<open>
  \<open>observer_chain om p ps\<close>: the observer at \<open>p\<close> is an \<open>IntObserver\<close>, or an
  \<open>IntMapObserver\<close> whose \<open>observer\<close> links lead from one \<open>IntMapObserver\<close> to the next and
  end at an \<open>IntObserver\<close>; \<open>ps\<close> lists the observers on the way, \<open>p\<close> first, each once.
  These are the observers on which \<open>error\<close> and \<open>complete\<close> return.
\<close>

inductive observer_chain :: "(addr \<rightharpoonup> observer_obj) \<Rightarrow> addr \<Rightarrow> addr list \<Rightarrow> bool" for om where
  sink: "om p = Some (IntObserver n) \<Longrightarrow> observer_chain om p [p]"
| link: "om p = Some (IntMapObserver (Some d) f) \<Longrightarrow> observer_chain om d ps \<Longrightarrow> p \<notin> set ps \<Longrightarrow>
         observer_chain om p (p # ps)"

code_pred observer_chain .

text \<open>
  \<open>doubles_fit n v\<close>: \<open>v\<close> can be doubled \<open>n\<close> times within the range of \<open>int\<close>, so that
  \<open>2 * value\<close> does not overflow in any of \<open>n\<close> mapping observers that pass it on.
\<close>

definition doubles_fit :: "nat \<Rightarrow> cint \<Rightarrow> bool" where
  "doubles_fit n v \<longleftrightarrow> - (2 ^ 31) \<le> 2 ^ n * sint v \<and> 2 ^ n * sint v < 2 ^ 31"

text \<open>
  The observers with their \<open>forward\<close> flags blanked: what \<open>next\<close>, \<open>error\<close> and \<open>complete\<close>
  leave as it is.
\<close>

fun unflagged :: "observer_obj \<Rightarrow> observer_obj" where
  "unflagged (IntObserver n) = IntObserver n"
| "unflagged (IntMapObserver d f) = IntMapObserver d True"

definition links_of :: "(addr \<rightharpoonup> observer_obj) \<Rightarrow> (addr \<rightharpoonup> observer_obj)" where
  "links_of om = (\<lambda>p. map_option unflagged (om p))"

text \<open>
  An Observable whose emission has run to completion: its handler has been set to
  \<open>nullptr\<close>; or it is a mapped Observable, with its mapping observer still alive, whose
  upstream Observable is one of these.
\<close>

inductive exhausted :: "'e state \<Rightarrow> addr \<Rightarrow> bool" for s where
  completed: "this < length (observables s) \<Longrightarrow>
       subscribeHandler (observables s ! this) = None \<Longrightarrow> exhausted s this"
| mapped: "this < length (observables s) \<Longrightarrow>
       subscribeHandler (observables s ! this) = Some Handler_map \<Longrightarrow>
       mappingObserver (observables s ! this) = Some m \<Longrightarrow>
       observers s m = Some (IntMapObserver d f) \<Longrightarrow>
       mappingObservable (observables s ! this) = Some u \<Longrightarrow>
       exhausted s u \<Longrightarrow> exhausted s this"

code_pred exhausted .

section \<open>Properties\<close>

subsection \<open>Auxiliary facts\<close>

lemma and_then_simps [simp]:
  "and_then None k = None"
  "and_then (Some (Faults x, s)) k = Some (Faults x, s)"
  "and_then (Some (Returns a, s)) k = k a s"
  by (simp_all add: and_then_def)

lemma new_simps [simp]:
  "fst (new s ob) = s\<lparr>observables := observables s @ [ob]\<rparr>"
  "snd (new s ob) = length (observables s)"
  by (simp_all add: new_def)

text \<open>How a sequence, a toggle or an assignment of \<open>observer\<close> can have ended.\<close>

lemma and_then_cases:
  assumes "and_then m k = Some y"
  obtains x s1 where "m = Some (Faults x, s1)" "y = (Faults x, s1)"
  | a s1 where "m = Some (Returns a, s1)" "k a s1 = Some y"
  using assms by (auto simp: and_then_def split: option.splits outcome.splits prod.splits)



lemma set_observer_cases:
  assumes "set_observer s m obs = Some y"
  obtains d f where "observers s m = Some (IntMapObserver d f)"
      "y = (Returns (), s\<lparr>observers := (observers s)(m \<mapsto> IntMapObserver (Some obs) f)\<rparr>)"
  | x where "y = (Faults x, s)"
  using assms by (auto simp: set_observer_def split: option.splits observer_obj.splits)

lemma clear_subscribeHandler_simps [simp]:
  "calls (clear_subscribeHandler s this) = calls s"
  "observers (clear_subscribeHandler s this) = observers s"
  "length (observables (clear_subscribeHandler s this)) = length (observables s)"
  by (simp_all add: clear_subscribeHandler_def)

lemma events_for_simps [simp]:
  "events_for q [] = []"
  "events_for q ((p, ev) # cs) = (if p = q then ev # events_for q cs else events_for q cs)"
  "events_for q (cs @ ds) = events_for q cs @ events_for q ds"
  by (simp_all add: events_for_def)


lemma at_most_Nil [simp]: "at_most k []"
  by (simp add: at_most_def)

text \<open>A call on an \<open>IntObserver\<close> is recorded and returns; nothing else changes.\<close>

lemma notify_IntObserver:
  "observers s p = Some (IntObserver n) \<Longrightarrow>
   notify s p ev = Some (Returns (), s\<lparr>calls := calls s @ [(p, ev)]\<rparr>)"
  by (subst notify.simps) simp

text \<open>
  Calls on an \<open>IntMapObserver\<close> whose \<open>observer\<close> is an \<open>IntObserver\<close>: errors and
  completion are passed on, a value is passed on doubled when \<open>forward\<close> is set, and
  \<open>forward\<close> is toggled by every \<open>next\<close>.
\<close>

lemma notify_IntMapObserver_Error:
  assumes "observers s m = Some (IntMapObserver (Some q) f)"
    and "observers s q = Some (IntObserver n)"
  shows "notify s m (Error e) =
           Some (Returns (), s\<lparr>calls := calls s @ [(m, Error e), (q, Error e)]\<rparr>)"
  by (subst notify.simps) (simp add: assms notify_IntObserver [where n = n])

lemma notify_IntMapObserver_Complete:
  assumes "observers s m = Some (IntMapObserver (Some q) f)"
    and "observers s q = Some (IntObserver n)"
  shows "notify s m Complete =
           Some (Returns (), s\<lparr>calls := calls s @ [(m, Complete), (q, Complete)]\<rparr>)"
  by (subst notify.simps) (simp add: assms notify_IntObserver [where n = n])

lemma notify_IntMapObserver_Next_forward:
  assumes "observers s m = Some (IntMapObserver (Some q) True)"
    and "observers s q = Some (IntObserver n)"
    and "- (2 ^ 31) \<le> 2 * sint v" and "2 * sint v < 2 ^ 31"
  shows "notify s m (Next v) =
           Some (Returns (),
             s\<lparr>calls := calls s @ [(m, Next v), (q, Next (2 * v))],
               observers := (observers s)(m \<mapsto> IntMapObserver (Some q) False)\<rparr>)"
  using assms
  by (subst notify.simps)
     (simp add: Let_def notify_IntObserver [where n = n] toggle_forward_def)

lemma notify_IntMapObserver_Next_skip:
  assumes "observers s m = Some (IntMapObserver d False)"
  shows "notify s m (Next v) =
           Some (Returns (),
             s\<lparr>calls := calls s @ [(m, Next v)],
               observers := (observers s)(m \<mapsto> IntMapObserver d True)\<rparr>)"
  by (subst notify.simps) (simp add: assms toggle_forward_def)

text \<open>
  The observers of \<open>MappingObserver::observer\<close> links need not end in an \<open>IntObserver\<close>:
  \<open>complete()\<close> on an \<open>IntMapObserver\<close> that is its own \<open>observer\<close> calls itself for ever.
  Hence the facts below speak of calls that end, or of \<open>IntObserver\<close>s.
\<close>

lemma notify_self_cycle:
  assumes "observers s m = Some (IntMapObserver (Some m) f)"
  shows "notify s m Complete = None"
proof (cases "notify s m Complete")
  case None
  then show ?thesis .
next
  case (Some y)
  have "\<forall>f. \<not> (observers s m = Some (IntMapObserver (Some m) f) \<and> Complete = (Complete :: 'a event))"
  proof (rule notify.raw_induct
      [where P = "\<lambda>s p ev y. \<forall>f. \<not> (observers s p = Some (IntMapObserver (Some p) f) \<and> ev = Complete)",
        OF _ Some], goal_cases)
    case (1 notify s p ev y)
    show ?case
    proof (intro allI notI)
      fix f assume a: "observers s p = Some (IntMapObserver (Some p) f) \<and> ev = Complete"
      with "1"(2) have "notify (s\<lparr>calls := calls s @ [(p, Complete)]\<rparr>) p Complete = Some y"
        by (simp add: Let_def)
      from "1"(1) [OF this] a show False by auto
    qed
  qed
  with assms show ?thesis by auto
qed

text \<open>\<open>subscribe\<close> by the value of the handler field.\<close>

lemma subscribe_completed:
  "this < length (observables s) \<Longrightarrow> subscribeHandler (observables s ! this) = None \<Longrightarrow>
   subscribe s this obs = Some (Returns this, s)"
  by (subst subscribe.simps) simp

lemma subscribe_of:
  "this < length (observables s) \<Longrightarrow>
   subscribeHandler (observables s ! this) = Some Handler_of \<Longrightarrow>
   subscribe s this obs = subscribeHandler_of s this obs"
  by (subst subscribe.simps) simp

lemma subscribe_from:
  "this < length (observables s) \<Longrightarrow>
   subscribeHandler (observables s ! this) = Some Handler_from \<Longrightarrow>
   subscribe s this obs = subscribeHandler_from s this obs"
  by (subst subscribe.simps) simp

lemma subscribe_throwError:
  "this < length (observables s) \<Longrightarrow>
   subscribeHandler (observables s ! this) = Some Handler_throwError \<Longrightarrow>
   subscribe s this obs = subscribeHandler_throwError s this obs"
  by (subst subscribe.simps) simp

lemma subscribe_map:
  "this < length (observables s) \<Longrightarrow>
   subscribeHandler (observables s ! this) = Some Handler_map \<Longrightarrow>
   subscribe s this obs = subscribeHandler_map s this obs"
  by (subst subscribe.simps) (simp add: subscribeHandler_map_def)

text \<open>One round of the loop of \<open>subscribeHandler_from\<close>, and its end.\<close>

lemma from_loop_step:
  assumes "i < valuesCount (observables s ! this)"
    and "valuesp (observables s ! this) = Some p"
    and "vmem s (p + i) = Some v"
  shows "from_loop s this obs i =
           and_then (notify s obs (Next v)) (\<lambda>_ s1. from_loop s1 this obs (Suc i))"
  by (subst from_loop.simps) (simp add: assms)

lemma from_loop_end:
  assumes "\<not> i < valuesCount (observables s ! this)"
  shows "from_loop s this obs i = Some (Returns (), s)"
  by (subst from_loop.simps) (simp add: assms)

text \<open>
  The loop of \<open>subscribeHandler_from\<close> on an \<open>IntObserver\<close>, started at index \<open>i\<close> of an
  array that holds \<open>xs\<close>: it returns, and has made one \<open>next\<close> call for each remaining
  element, in order.
\<close>

lemma from_loop_IntObserver:
  assumes "observers s obs = Some (IntObserver n)"
    and "this < length (observables s)"
    and "valuesCount (observables s ! this) = length xs"
    and "\<forall>i<length xs. \<exists>p. valuesp (observables s ! this) = Some p \<and> vmem s (p + i) = Some (xs ! i)"
    and "i \<le> length xs"
  shows "from_loop s this obs i =
           Some (Returns (), s\<lparr>calls := calls s @ map (\<lambda>x. (obs, Next x)) (drop i xs)\<rparr>)"
  using assms
proof (induction "length xs - i" arbitrary: s i)
  case 0
  then show ?case by (subst from_loop.simps) simp
next
  case (Suc k)
  then have lt: "i < length xs" by simp
  with Suc.prems(4) obtain p where p: "valuesp (observables s ! this) = Some p"
      "vmem s (p + i) = Some (xs ! i)" by blast
  let ?s1 = "s\<lparr>calls := calls s @ [(obs, Next (xs ! i))]\<rparr>"
  have IH: "from_loop ?s1 this obs (Suc i) =
      Some (Returns (), ?s1\<lparr>calls := calls ?s1 @ map (\<lambda>x. (obs, Next x)) (drop (Suc i) xs)\<rparr>)"
    using Suc.hyps(2) Suc.prems lt by (intro Suc.hyps(1)) auto
  have dr: "drop i xs = xs ! i # drop (Suc i) xs"
    using lt by (simp add: Cons_nth_drop_Suc)
  show ?case
    by (subst from_loop.simps)
       (simp add: lt Suc.prems(3) p notify_IntObserver [OF Suc.prems(1)] IH dr)
qed

text \<open>The three plain handlers return \<open>this\<close>, and \<open>unsubscribe\<close> returns.\<close>

lemma handler_returns_this:
  "subscribeHandler_of s this obs = Some (Returns r, s') \<Longrightarrow> r = this"
  "subscribeHandler_from s this obs = Some (Returns r, s') \<Longrightarrow> r = this"
  "subscribeHandler_throwError s this obs = Some (Returns r, s') \<Longrightarrow> r = this"
  by (auto simp: subscribeHandler_of_def subscribeHandler_from_def subscribeHandler_throwError_def
      split: option.splits elim!: and_then_cases)

lemma unsubscribe_Returns:
  "this < length (observables s) \<Longrightarrow>
   unsubscribe s this = Some (Returns (),
     s\<lparr>observables := (observables s)[this := (observables s ! this)
         \<lparr>valuesp := None, valuesCount := 0, err := None\<rparr>]\<rparr>)"
  by (simp add: unsubscribe_def)

subsection \<open>The runs of \<open>main\<close>\<close>

text \<open>
  The test case \<open>map\<close>: every call made when \<open>myIntObserver\<close> subscribes to the mapped
  series, in order, and the objects as the subscription leaves them. The test case
  \<open>throwError\<close> likewise.
\<close>

lemma mapped_run:
  "\<exists>s'. subscribe (fst mappedSeriesObservable) (snd mappedSeriesObservable) 0
           = Some (Returns 0, s') \<and>
        calls s' = [(1, Next 1), (0, Next 2), (1, Next (- 2)), (1, Next 3), (0, Next 6),
                    (1, Next (- 4)), (1, Next 5), (0, Next 10), (1, Next (- 6)),
                    (1, Next 7), (0, Next 14), (1, Complete), (0, Complete)] \<and>
        observables s' =
          [Observable\<lparr>subscribeHandler := None, valuesp := Some 0, valuesCount := 7\<rparr>,
           Observable\<lparr>subscribeHandler := Some Handler_map, mappingObserver := Some 1,
                      mappingObservable := Some 0\<rparr>] \<and>
        observers s' 1 = Some (IntMapObserver (Some 0) False)"
  by (simp add: mappedSeriesObservable_def intSeriesObservable_def main_state_def series_def
      Observable_map_def Observable_from_def Observable_def
      subscribe_map subscribeHandler_map_def set_observer_def
      subscribe_from subscribeHandler_from_def
      from_loop_step [where p = 0] from_loop_end
      notify_IntMapObserver_Next_forward [where q = 0 and n = "''IntObs''"]
      notify_IntMapObserver_Next_skip [where d = "Some 0"]
      notify_IntMapObserver_Complete [where q = 0 and n = "''IntObs''" and f = False]
      clear_subscribeHandler_def)


subsection \<open>What a call delivers to an \<open>IntObserver\<close>\<close>











subsection \<open>Observers linked down to an \<open>IntObserver\<close>\<close>

text \<open>Doubling within the range of \<open>int\<close>.\<close>

lemma doubles_fit_0 [simp]: "doubles_fit 0 v"
  using sint_ge [of v] sint_lt [of v] by (simp add: doubles_fit_def)

lemma power2_times_bound:
  fixes y B :: int
  assumes "- B \<le> 2 ^ n * y" and "2 ^ n * y < B" and "0 < B"
  shows "- B \<le> y \<and> y < B"
proof (cases "0 \<le> y")
  case True
  have "1 * y \<le> 2 ^ n * y" by (rule mult_right_mono) (use True in simp_all)
  with assms True show ?thesis by linarith
next
  case False
  then have "y \<le> 0" by simp
  have "2 ^ n * y \<le> 1 * y" by (rule mult_right_mono_neg) (use \<open>y \<le> 0\<close> in simp_all)
  with assms False show ?thesis by linarith
qed

lemma doubles_fit_Suc:
  assumes "doubles_fit (Suc n) v"
  shows "- (2 ^ 31) \<le> 2 * sint v" and "2 * sint v < 2 ^ 31" and "doubles_fit n (2 * v)"
proof -
  from assms have b: "- (2 ^ 31) \<le> 2 ^ n * (2 * sint v)" "2 ^ n * (2 * sint v) < 2 ^ 31"
    by (simp_all add: doubles_fit_def mult.assoc mult.left_commute)
  from power2_times_bound [OF b] show lo: "- (2 ^ 31) \<le> 2 * sint v" and hi: "2 * sint v < 2 ^ 31"
    by simp_all
  have "sint (2 * v) = signed_take_bit 31 (sint (2 :: cint) * sint v)"
    by (simp add: sint_word_ariths)
  also have "sint (2 :: cint) = 2" by simp
  also have "signed_take_bit 31 (2 * sint v) = 2 * sint v"
    using lo hi by (intro signed_take_bit_int_eq_self) simp_all
  finally have "sint (2 * v) = 2 * sint v" .
  with b show "doubles_fit n (2 * v)" by (simp add: doubles_fit_def)
qed

text \<open>
  A chain starts with its observer, which is not met again, and depends on the links only,
  not on the flags nor on observers off the chain.
\<close>

lemma observer_chain_hd:
  "observer_chain om p ps \<Longrightarrow> \<exists>t. ps = p # t \<and> p \<notin> set t"
  by (induction rule: observer_chain.induct) auto

lemma observer_chain_links:
  "observer_chain om p ps \<Longrightarrow> links_of om' = links_of om \<Longrightarrow> observer_chain om' p ps"
proof (induction rule: observer_chain.induct)
  case (sink p n)
  from sink(2) have "map_option unflagged (om' p) = map_option unflagged (om p)"
    by (simp add: links_of_def fun_eq_iff)
  with sink(1) have "om' p = Some (IntObserver n)"
    by (cases "om' p"; cases "the (om' p)") auto
  then show ?case by (rule observer_chain.sink)
next
  case (link p d f ps)
  from link.prems have "map_option unflagged (om' p) = map_option unflagged (om p)"
    by (simp add: links_of_def fun_eq_iff)
  with link.hyps(1) obtain f' where "om' p = Some (IntMapObserver (Some d) f')"
    by (cases "om' p"; cases "the (om' p)") auto
  then show ?case using link.IH [OF link.prems] link.hyps(3) by (rule observer_chain.link)
qed

lemma links_of_toggle:
  "om p = Some (IntMapObserver d f) \<Longrightarrow> links_of (om(p \<mapsto> IntMapObserver d f')) = links_of om"
  by (auto simp: links_of_def fun_eq_iff)

lemma links_of_lookup:
  "links_of om' = links_of om \<Longrightarrow> om p = Some (IntMapObserver d f) \<Longrightarrow>
   \<exists>f'. om' p = Some (IntMapObserver d f')"
proof -
  assume a: "links_of om' = links_of om" "om p = Some (IntMapObserver d f)"
  then have "map_option unflagged (om' p) = map_option unflagged (om p)"
    by (simp add: links_of_def fun_eq_iff)
  with a(2) show ?thesis by (cases "om' p"; cases "the (om' p)") auto
qed

lemma observer_chain_upd:
  "observer_chain om p ps \<Longrightarrow> m \<notin> set ps \<Longrightarrow> observer_chain (om(m \<mapsto> ob)) p ps"
proof (induction rule: observer_chain.induct)
  case (sink p n)
  then show ?case by (intro observer_chain.sink [where n = n]) simp
next
  case (link p d f ps)
  then show ?case by (intro observer_chain.link [where f = f]) simp_all
qed

lemma events_for_none: "q \<notin> fst ` set cs \<Longrightarrow> events_for q cs = []"
  by (induction cs) auto

lemma events_for_only: "set (map fst cs) \<subseteq> {q} \<Longrightarrow> cs = map (Pair q) (events_for q cs)"
  by (induction cs) auto

lemma events_for_chain:
  "q \<notin> set t \<Longrightarrow> events_for q (map (\<lambda>p. (p, ev)) (q # t)) = [ev]"
  by (simp add: events_for_none image_image)

text \<open>
  \<open>error\<close> and \<open>complete\<close> on the first observer of a chain return, after one call on each
  observer of the chain, in order.
\<close>

lemma notify_chain_pass:
  assumes "observer_chain om p ps" and "observers s = om" and "kind_of ev \<noteq> KNext"
  shows "notify s p ev = Some (Returns (), s\<lparr>calls := calls s @ map (\<lambda>q. (q, ev)) ps\<rparr>)"
  using assms
proof (induction arbitrary: s rule: observer_chain.induct)
  case (sink p n)
  then show ?case by (simp add: notify_IntObserver [where n = n])
next
  case (link p d f ps)
  let ?s1 = "s\<lparr>calls := calls s @ [(p, ev)]\<rparr>"
  have IH: "notify ?s1 d ev =
      Some (Returns (), s\<lparr>calls := calls s @ (p, ev) # map (\<lambda>q. (q, ev)) ps\<rparr>)"
    using link.IH [of ?s1] link.prems by simp
  from link.hyps(1) link.prems(1) have p: "observers s p = Some (IntMapObserver (Some d) f)"
    by simp
  have "notify s p ev = notify ?s1 d ev"
    using link.prems(2) by (subst notify.simps) (cases ev; simp add: p Let_def)
  with IH show ?case by simp
qed

text \<open>
  \<open>next\<close> on the first observer of a chain returns when the value can be doubled in every
  mapping observer of the chain: it is one call on the first observer, and calls on
  observers further down; only flags change.
\<close>

lemma notify_chain_next:
  assumes "observer_chain om p ps" and "observers s = om" and "doubles_fit (length ps - 1) v"
  shows "\<exists>cs om'. notify s p (Next v) =
            Some (Returns (), s\<lparr>calls := calls s @ (p, Next v) # cs, observers := om'\<rparr>) \<and>
          set (map fst cs) \<subseteq> set (tl ps) \<and> links_of om' = links_of om"
  using assms
proof (induction arbitrary: s v rule: observer_chain.induct)
  case (sink p n)
  have "s\<lparr>calls := calls s @ [(p, Next v)], observers := om\<rparr> = s\<lparr>calls := calls s @ [(p, Next v)]\<rparr>"
    using sink.prems(1) by simp
  then show ?case
    using sink by (intro exI [of _ "[]"] exI [of _ om]) (simp add: notify_IntObserver [where n = n])
next
  case (link p d f ps)
  from link.hyps(1) link.prems(1) have p: "observers s p = Some (IntMapObserver (Some d) f)"
    by simp
  let ?s1 = "s\<lparr>calls := calls s @ [(p, Next v)]\<rparr>"
  show ?case
  proof (cases f)
    case False
    have "notify s p (Next v) = Some (Returns (),
        s\<lparr>calls := calls s @ (p, Next v) # [], observers := om(p \<mapsto> IntMapObserver (Some d) True)\<rparr>)"
      using p False link.prems(1) by (simp add: notify_IntMapObserver_Next_skip)
    moreover have "links_of (om(p \<mapsto> IntMapObserver (Some d) True)) = links_of om"
      using links_of_toggle [of om p "Some d" f True] link.hyps(1) by simp
    moreover have "set (map fst ([] :: (addr \<times> 'a event) list)) \<subseteq> set (tl (p # ps))"
      by simp
    ultimately show ?thesis by blast
  next
    case True
    from observer_chain_hd [OF link.hyps(2)] obtain t where ps: "ps = d # t" by blast
    then have "doubles_fit (Suc (length ps - 1)) v" using link.prems(2) by simp
    note fit = doubles_fit_Suc [OF this]
    from link.IH [of ?s1 "2 * v"] link.prems(1) fit(3) obtain cs om' where
      down: "notify ?s1 d (Next (2 * v)) =
          Some (Returns (),
            s\<lparr>calls := calls s @ (p, Next v) # (d, Next (2 * v)) # cs, observers := om'\<rparr>)"
      and cs: "set (map fst cs) \<subseteq> set (tl ps)" and links: "links_of om' = links_of om"
      by auto
    from links_of_lookup [OF links link.hyps(1)] obtain f' where
      p': "om' p = Some (IntMapObserver (Some d) f')" by blast
    have "notify s p (Next v) = Some (Returns (),
        s\<lparr>calls := calls s @ (p, Next v) # (d, Next (2 * v)) # cs,
          observers := om'(p \<mapsto> IntMapObserver (Some d) (\<not> f'))\<rparr>)"
      using fit(1,2)
      by (subst notify.simps) (simp add: p True Let_def down toggle_forward_def p')
    moreover have "links_of (om'(p \<mapsto> IntMapObserver (Some d) (\<not> f'))) = links_of om"
      using links_of_toggle [of om' p "Some d" f' "\<not> f'"] p' links by simp
    moreover have "set (map fst ((d, Next (2 * v)) # cs)) \<subseteq> set (tl (p # ps))"
      using cs ps by auto
    ultimately show ?thesis by blast
  qed
qed

text \<open>The loop of \<open>subscribeHandler_from\<close> on the first observer of a chain.\<close>

lemma from_loop_chain:
  assumes "observer_chain om obs ps"
    and "links_of (observers s) = links_of om"
    and "valuesCount (observables s ! this) = length xs"
    and "\<forall>i<length xs. \<exists>p. valuesp (observables s ! this) = Some p \<and> vmem s (p + i) = Some (xs ! i)"
    and "\<forall>x\<in>set xs. doubles_fit (length ps - 1) x"
    and "i \<le> length xs"
  shows "\<exists>cs om'. from_loop s this obs i =
            Some (Returns (), s\<lparr>calls := calls s @ cs, observers := om'\<rparr>) \<and>
          events_for obs cs = map Next (drop i xs) \<and> set (map fst cs) \<subseteq> set ps \<and>
          links_of om' = links_of om"
  using assms(2-)
proof (induction "length xs - i" arbitrary: s i)
  case 0
  then have "from_loop s this obs i = Some (Returns (), s\<lparr>calls := calls s @ [], observers := observers s\<rparr>)"
    by (simp add: from_loop_end)
  moreover have "events_for obs [] = map Next (drop i xs)" using 0 by simp
  moreover have "set (map fst ([] :: (addr \<times> 'a event) list)) \<subseteq> set ps" by simp
  ultimately show ?case using "0.prems"(1) by blast
next
  case (Suc k)
  then have lt: "i < length xs" by simp
  with Suc.prems(3) obtain p where p: "valuesp (observables s ! this) = Some p"
      "vmem s (p + i) = Some (xs ! i)" by blast
  from observer_chain_hd [OF assms(1)] obtain t where ps: "ps = obs # t" "obs \<notin> set t" by blast
  have chain: "observer_chain (observers s) obs ps"
    using assms(1) Suc.prems(1) by (rule observer_chain_links)
  have fit: "doubles_fit (length ps - 1) (xs ! i)" using Suc.prems(4) lt by simp
  from notify_chain_next [OF chain refl fit] obtain cs1 om1 where
    n: "notify s obs (Next (xs ! i)) =
          Some (Returns (), s\<lparr>calls := calls s @ (obs, Next (xs ! i)) # cs1, observers := om1\<rparr>)"
    and cs1: "set (map fst cs1) \<subseteq> set (tl ps)"
    and l1: "links_of om1 = links_of (observers s)" by blast
  let ?s1 = "s\<lparr>calls := calls s @ (obs, Next (xs ! i)) # cs1, observers := om1\<rparr>"
  have "\<exists>cs om'. from_loop ?s1 this obs (Suc i) =
            Some (Returns (), ?s1\<lparr>calls := calls ?s1 @ cs, observers := om'\<rparr>) \<and>
          events_for obs cs = map Next (drop (Suc i) xs) \<and> set (map fst cs) \<subseteq> set ps \<and>
          links_of om' = links_of om"
    using Suc.hyps(2) Suc.prems lt l1 by (intro Suc.hyps(1)) auto
  then obtain cs2 om2 where
    r: "from_loop ?s1 this obs (Suc i) =
          Some (Returns (), s\<lparr>calls := calls s @ (obs, Next (xs ! i)) # cs1 @ cs2, observers := om2\<rparr>)"
    and e2: "events_for obs cs2 = map Next (drop (Suc i) xs)"
    and cs2: "set (map fst cs2) \<subseteq> set ps" and l2: "links_of om2 = links_of om"
    by auto
  have "from_loop s this obs i =
      Some (Returns (), s\<lparr>calls := calls s @ ((obs, Next (xs ! i)) # cs1 @ cs2), observers := om2\<rparr>)"
    using from_loop_step [OF _ p, of obs] lt Suc.prems(2) n r by simp
  moreover have "events_for obs cs1 = []"
    using cs1 ps by (intro events_for_none) auto
  then have "events_for obs ((obs, Next (xs ! i)) # cs1 @ cs2) = map Next (drop i xs)"
    using e2 lt by (simp flip: Cons_nth_drop_Suc)
  moreover have "set (map fst ((obs, Next (xs ! i)) # cs1 @ cs2)) \<subseteq> set ps"
    using cs1 cs2 ps by auto
  ultimately show ?case using l2 by blast
qed

text \<open>
  Observers off such chains: a mapping observer whose \<open>observer\<close> has not been set (the call
  through it is a fault), and one that is its own \<open>observer\<close> (\<open>error\<close> calls itself for ever).
\<close>

lemma notify_unset_Next:
  assumes "observers s p = Some (IntMapObserver None True)"
    and "- (2 ^ 31) \<le> 2 * sint v" and "2 * sint v < 2 ^ 31"
  shows "notify s p (Next v) = Some (Faults InvalidPointer, s\<lparr>calls := calls s @ [(p, Next v)]\<rparr>)"
  using assms by (subst notify.simps) (simp add: Let_def)

lemma notify_unset_Error:
  assumes "observers s p = Some (IntMapObserver None f)"
  shows "notify s p (Error e) = Some (Faults InvalidPointer, s\<lparr>calls := calls s @ [(p, Error e)]\<rparr>)"
  using assms by (subst notify.simps) (simp add: Let_def)

lemma notify_self_cycle_Error:
  assumes "observers s m = Some (IntMapObserver (Some m) f)"
  shows "notify s m (Error e) = None"
proof (cases "notify s m (Error e)")
  case None
  then show ?thesis .
next
  case (Some y)
  have "\<forall>f. \<not> (observers s m = Some (IntMapObserver (Some m) f) \<and> kind_of (Error e) = KError)"
  proof (rule notify.raw_induct
      [where P = "\<lambda>s p ev y. \<forall>f. \<not> (observers s p = Some (IntMapObserver (Some p) f) \<and> kind_of ev = KError)",
        OF _ Some], goal_cases)
    case (1 notify s p ev y)
    show ?case
    proof (intro allI notI)
      fix f assume a: "observers s p = Some (IntMapObserver (Some p) f) \<and> kind_of ev = KError"
      then obtain e' where ev: "ev = Error e'" by (cases ev) auto
      with a "1"(2) have "notify (s\<lparr>calls := calls s @ [(p, Error e')]\<rparr>) p (Error e') = Some y"
        by (simp add: Let_def)
      from "1"(1) [OF this] a show False by auto
    qed
  qed
  with assms show ?thesis by auto
qed

text \<open>The chains of \<open>myIntObserver\<close> in \<open>main_state\<close> and of \<open>myMappingObserver\<close> in \<open>linked_state\<close>.\<close>

lemma main_chain: "observer_chain (observers main_state) 0 [0]"
  by (rule observer_chain.sink [where n = "''IntObs''"]) (simp add: main_state_def)

lemma linked_chain: "observer_chain (observers linked_state) 1 [1, 0]"
  by (rule observer_chain.link [where f = True and d = 0],
      simp add: linked_state_def main_state_def,
      rule observer_chain.sink [where n = "''IntObs''"],
      simp_all add: linked_state_def main_state_def)

subsection \<open>The three sources\<close>

text \<open>
  C1, as the claim states it, for every observer: \<open>subscribe(obs)\<close> on \<open>of(v)\<close> would call
  \<open>obs.next(v)\<close> and then \<open>obs.complete()\<close>. With \<open>myMappingObserver\<close> of \<open>main\<close> as \<open>obs\<close>,
  whose \<open>observer\<close> is not set, \<open>next(1)\<close> is called and ends in a fault; \<open>complete()\<close> is
  not called.
\<close>

theorem of_subscribe_counterexample:
  "(\<exists>s'. subscribe (fst singleIntObservable) (snd singleIntObservable) 1
            = Some (Faults InvalidPointer, s') \<and> calls s' = [(1, Next 1)]) \<and>
   \<not> (\<exists>r s'. subscribe (fst singleIntObservable) (snd singleIntObservable) 1
                 = Some (Returns r, s') \<and> calls_on 1 s' = [Next 1, Complete])"
  by (simp add: singleIntObservable_def Observable_of_def Observable_def
      main_state_def series_def subscribe_of subscribeHandler_of_def notify_unset_Next)

text \<open>
  C1, amended. For every value \<open>v\<close> (stored at the address \<open>p\<close> that the reference passed to
  \<open>of\<close> refers to) and every observer \<open>obs\<close> whose \<open>observer\<close> links end at an \<open>IntObserver\<close>
  (\<open>obs\<close> is an \<open>IntObserver\<close>, or mapping observers linked down to one), where \<open>v\<close> can be
  doubled once per mapping observer on the way: \<open>subscribe(obs)\<close> on the Observable that
  \<open>of\<close> has just constructed returns, the calls on \<open>obs\<close> are exactly \<open>obs.next(v)\<close> and then
  \<open>obs.complete()\<close>, each once, and every other call is one on an observer further down the
  chain. When \<open>obs\<close> is an \<open>IntObserver\<close> these two are all the calls made. The Observable is
  completed afterwards.
\<close>

theorem of_subscribe:
  assumes "Observable_of s p = (s1, a)"
    and "vmem s p = Some v"
    and "observer_chain (observers s) obs ps"
    and "doubles_fit (length ps - 1) v"
  shows "\<exists>s' cs. subscribe s1 a obs = Some (Returns a, s') \<and> calls s' = calls s @ cs \<and>
           events_for obs cs = [Next v, Complete] \<and> set (map fst cs) \<subseteq> set ps \<and>
           (ps = [obs] \<longrightarrow> cs = [(obs, Next v), (obs, Complete)]) \<and>
           subscribeHandler (observables s' ! a) = None"
proof -
  from assms(1) have s1: "s1 = s\<lparr>observables := observables s @
        [Observable\<lparr>subscribeHandler := Some Handler_of, valuesp := Some p\<rparr>]\<rparr>"
    and a: "a = length (observables s)"
    by (auto simp: Observable_of_def new_def)
  from observer_chain_hd [OF assms(3)] obtain t where ps: "ps = obs # t" "obs \<notin> set t" by blast
  have "observers s1 = observers s" by (simp add: s1)
  from notify_chain_next [OF assms(3) this assms(4)] obtain cs1 om1 where
    n: "notify s1 obs (Next v) =
          Some (Returns (), s1\<lparr>calls := calls s1 @ (obs, Next v) # cs1, observers := om1\<rparr>)"
    and cs1: "set (map fst cs1) \<subseteq> set (tl ps)"
    and l1: "links_of om1 = links_of (observers s)" by blast
  let ?s2 = "s1\<lparr>calls := calls s1 @ (obs, Next v) # cs1, observers := om1\<rparr>"
  have "observer_chain om1 obs ps" using assms(3) l1 by (rule observer_chain_links)
  from notify_chain_pass [OF this, of ?s2 Complete]
  have c: "notify ?s2 obs Complete =
      Some (Returns (), ?s2\<lparr>calls := calls ?s2 @ map (\<lambda>q. (q, Complete)) ps\<rparr>)" by simp
  let ?cs = "(obs, Next v) # cs1 @ map (\<lambda>q. (q, Complete)) ps"
  let ?s' = "clear_subscribeHandler (?s2\<lparr>calls := calls ?s2 @ map (\<lambda>q. (q, Complete)) ps\<rparr>) a"
  have run: "subscribe s1 a obs = Some (Returns a, ?s')"
    using assms(2) n c by (simp add: subscribe_of subscribeHandler_of_def s1 a)
  have calls: "calls ?s' = calls s @ ?cs" by (simp add: s1)
  have "events_for obs cs1 = []" using cs1 ps by (intro events_for_none) auto
  then have ev: "events_for obs ?cs = [Next v, Complete]"
    using events_for_chain [OF ps(2), of Complete] ps(1) by simp
  have sub: "set (map fst ?cs) \<subseteq> set ps" using cs1 ps by auto
  have only: "?cs = [(obs, Next v), (obs, Complete)]" if "ps = [obs]"
    using events_for_only [of ?cs obs] sub ev that by simp
  have h: "subscribeHandler (observables ?s' ! a) = None"
    by (simp add: s1 a clear_subscribeHandler_def)
  from run calls ev sub only h show ?thesis by blast
qed

theorem of_subscribe_witness:
  "(\<exists>s'. subscribe (fst singleIntObservable) (snd singleIntObservable) 0
            = Some (Returns (snd singleIntObservable), s') \<and>
          calls s' = [(0, Next 1), (0, Complete)]) \<and>
   (\<exists>s' cs. subscribe (fst (Observable_of linked_state 7)) (snd (Observable_of linked_state 7)) 1
            = Some (Returns (snd (Observable_of linked_state 7)), s') \<and>
          calls s' = calls linked_state @ cs \<and> events_for 1 cs = [Next 1, Complete] \<and>
          set (map fst cs) \<subseteq> {0, 1})"
  using
    of_subscribe [OF _ _ main_chain, of 7 "fst singleIntObservable" "snd singleIntObservable" 1]
    of_subscribe [OF _ _ linked_chain, of 7 "fst (Observable_of linked_state 7)"
      "snd (Observable_of linked_state 7)" 1]
  by (auto simp: singleIntObservable_def linked_state_def main_state_def series_def
      doubles_fit_def insert_commute)

text \<open>
  C2, as the claim states it, for every observer: \<open>subscribe(obs)\<close> on \<open>from(s)\<close> would call
  \<open>obs.next\<close> once per element and then \<open>obs.complete()\<close>. With \<open>myMappingObserver\<close> of
  \<open>main\<close> as \<open>obs\<close>, whose \<open>observer\<close> is not set, the first \<open>next\<close> ends in a fault; no
  further \<open>next\<close> and no \<open>complete()\<close> is called.
\<close>

theorem from_subscribe_counterexample:
  "(\<exists>s'. subscribe (fst intSeriesObservable) (snd intSeriesObservable) 1
            = Some (Faults InvalidPointer, s') \<and> calls s' = [(1, Next 1)]) \<and>
   \<not> (\<exists>r s'. subscribe (fst intSeriesObservable) (snd intSeriesObservable) 1
                 = Some (Returns r, s') \<and> calls_on 1 s' = map Next series @ [Complete])"
  by (simp add: intSeriesObservable_def Observable_from_def Observable_def
      main_state_def series_def subscribe_from subscribeHandler_from_def
      from_loop_step [where p = 0] notify_unset_Next)

text \<open>
  C2, amended. For every sequence \<open>xs\<close>, the empty one included, held by the array passed to
  \<open>from\<close> with its length, and every observer \<open>obs\<close> whose \<open>observer\<close> links end at an
  \<open>IntObserver\<close>, where every element can be doubled once per mapping observer on the way:
  \<open>subscribe(obs)\<close> on the Observable that \<open>from\<close> has just constructed returns, the calls on
  \<open>obs\<close> are exactly one \<open>obs.next\<close> per element of \<open>xs\<close>, in the order of \<open>xs\<close>, and then one
  \<open>obs.complete()\<close> (for the empty sequence \<open>complete()\<close> alone), and every other call is one
  on an observer further down the chain. When \<open>obs\<close> is an \<open>IntObserver\<close> these are all the
  calls made.
\<close>

theorem from_subscribe:
  assumes "Observable_from s vals (length xs) = (s1, a)"
    and "\<forall>i<length xs. \<exists>p. vals = Some p \<and> vmem s (p + i) = Some (xs ! i)"
    and "observer_chain (observers s) obs ps"
    and "\<forall>x\<in>set xs. doubles_fit (length ps - 1) x"
  shows "\<exists>s' cs. subscribe s1 a obs = Some (Returns a, s') \<and> calls s' = calls s @ cs \<and>
           events_for obs cs = map Next xs @ [Complete] \<and> set (map fst cs) \<subseteq> set ps \<and>
           (ps = [obs] \<longrightarrow> cs = map (\<lambda>x. (obs, Next x)) xs @ [(obs, Complete)]) \<and>
           subscribeHandler (observables s' ! a) = None"
proof -
  from assms(1) have s1: "s1 = s\<lparr>observables := observables s @
        [Observable\<lparr>subscribeHandler := Some Handler_from, valuesp := vals,
                    valuesCount := length xs\<rparr>]\<rparr>"
    and a: "a = length (observables s)"
    by (auto simp: Observable_from_def new_def)
  from observer_chain_hd [OF assms(3)] obtain t where ps: "ps = obs # t" "obs \<notin> set t" by blast
  have "\<exists>cs om'. from_loop s1 a obs 0 =
            Some (Returns (), s1\<lparr>calls := calls s1 @ cs, observers := om'\<rparr>) \<and>
          events_for obs cs = map Next (drop 0 xs) \<and> set (map fst cs) \<subseteq> set ps \<and>
          links_of om' = links_of (observers s)"
    by (rule from_loop_chain [OF assms(3)]) (use assms(2,4) in \<open>simp_all add: s1 a\<close>)
  then obtain cs1 om1 where
    n: "from_loop s1 a obs 0 = Some (Returns (), s1\<lparr>calls := calls s1 @ cs1, observers := om1\<rparr>)"
    and e1: "events_for obs cs1 = map Next xs"
    and cs1: "set (map fst cs1) \<subseteq> set ps"
    and l1: "links_of om1 = links_of (observers s)" by auto
  let ?s2 = "s1\<lparr>calls := calls s1 @ cs1, observers := om1\<rparr>"
  have "observer_chain om1 obs ps" using assms(3) l1 by (rule observer_chain_links)
  from notify_chain_pass [OF this, of ?s2 Complete]
  have c: "notify ?s2 obs Complete =
      Some (Returns (), ?s2\<lparr>calls := calls ?s2 @ map (\<lambda>q. (q, Complete)) ps\<rparr>)" by simp
  let ?cs = "cs1 @ map (\<lambda>q. (q, Complete)) ps"
  let ?s' = "clear_subscribeHandler (?s2\<lparr>calls := calls ?s2 @ map (\<lambda>q. (q, Complete)) ps\<rparr>) a"
  have run: "subscribe s1 a obs = Some (Returns a, ?s')"
    using n c by (simp add: subscribe_from subscribeHandler_from_def s1 a)
  have calls: "calls ?s' = calls s @ ?cs" by (simp add: s1)
  have ev: "events_for obs ?cs = map Next xs @ [Complete]"
    using events_for_chain [OF ps(2), of Complete] ps(1) e1 by simp
  have sub: "set (map fst ?cs) \<subseteq> set ps" using cs1 ps by auto
  have only: "?cs = map (\<lambda>x. (obs, Next x)) xs @ [(obs, Complete)]" if "ps = [obs]"
    using events_for_only [of ?cs obs] sub ev that by simp
  have h: "subscribeHandler (observables ?s' ! a) = None"
    by (simp add: s1 a clear_subscribeHandler_def)
  from run calls ev sub only h show ?thesis by blast
qed

theorem from_subscribe_witness:
  "(\<exists>s'. subscribe (fst intSeriesObservable) (snd intSeriesObservable) 0
            = Some (Returns (snd intSeriesObservable), s') \<and>
          calls s' = map (\<lambda>x. (0, Next x)) series @ [(0, Complete)]) \<and>
   (\<exists>s' cs. subscribe (fst (Observable_from linked_state (Some 0) 7))
                      (snd (Observable_from linked_state (Some 0) 7)) 1
            = Some (Returns (snd (Observable_from linked_state (Some 0) 7)), s') \<and>
          calls s' = calls linked_state @ cs \<and>
          events_for 1 cs = map Next series @ [Complete] \<and>
          set (map fst cs) \<subseteq> {0, 1})"
proof -
  have len: "length series = 7" by (simp add: series_def)
  have mem0: "\<forall>i<length series. \<exists>p. Some 0 = Some p \<and> vmem main_state (p + i) = Some (series ! i)"
    by (simp add: main_state_def)
  have mem1: "\<forall>i<length series. \<exists>p. Some 0 = Some p \<and> vmem linked_state (p + i) = Some (series ! i)"
    by (simp add: linked_state_def main_state_def)
  have fit0: "\<forall>x\<in>set series. doubles_fit (length [0::nat] - 1) x" by simp
  have fit1: "\<forall>x\<in>set series. doubles_fit (length [1::nat, 0] - 1) x"
    by (simp add: series_def doubles_fit_def)
  have c0: "Observable_from main_state (Some 0) (length series)
      = (fst intSeriesObservable, snd intSeriesObservable)"
    by (simp add: len intSeriesObservable_def)
  have c1: "Observable_from linked_state (Some 0) (length series)
      = (fst (Observable_from linked_state (Some 0) 7), snd (Observable_from linked_state (Some 0) 7))"
    by (simp add: len)
  from from_subscribe [OF c0 mem0 main_chain fit0] from_subscribe [OF c1 mem1 linked_chain fit1]
  show ?thesis by (auto simp: main_state_def insert_commute)
qed

text \<open>
  C3, as the claim states it, for every observer: \<open>subscribe(obs)\<close> on \<open>throwError(e)\<close> would
  call \<open>obs.error(e)\<close> and then \<open>obs.complete()\<close>. With \<open>myMappingObserver\<close> of \<open>main\<close> as
  \<open>obs\<close>, whose \<open>observer\<close> is not set, \<open>error\<close> is called and ends in a fault;
  \<open>complete()\<close> is not called.
\<close>

theorem throwError_subscribe_counterexample:
  "(\<exists>s'. subscribe (fst errorObservable) (snd errorObservable) 1
            = Some (Faults InvalidPointer, s') \<and> calls s' = [(1, Error ''An error occured!'')]) \<and>
   \<not> (\<exists>r s'. subscribe (fst errorObservable) (snd errorObservable) 1
                 = Some (Returns r, s') \<and>
               calls_on 1 s' = [Error ''An error occured!'', Complete])"
  by (simp add: errorObservable_def Observable_throwError_def Observable_def
      main_state_def subscribe_throwError subscribeHandler_throwError_def notify_unset_Error)

text \<open>
  C3, amended. For every error value \<open>e\<close> (stored at the address \<open>p\<close> that the reference
  passed to \<open>throwError\<close> refers to) and every observer \<open>obs\<close> whose \<open>observer\<close> links end at
  an \<open>IntObserver\<close>: \<open>subscribe(obs)\<close> on the Observable that \<open>throwError\<close> has just
  constructed returns, and the calls made are exactly \<open>error(e)\<close> on \<open>obs\<close> and on each
  observer down its chain, then \<open>complete()\<close> on the same observers; so \<open>obs.error(e)\<close>
  once, then \<open>obs.complete()\<close> once, and no \<open>next\<close>.
\<close>

theorem throwError_subscribe:
  assumes "Observable_throwError s p = (s1, a)"
    and "emem s p = Some e"
    and "observer_chain (observers s) obs ps"
  shows "\<exists>s' cs. subscribe s1 a obs = Some (Returns a, s') \<and> calls s' = calls s @ cs \<and>
           cs = map (\<lambda>q. (q, Error e)) ps @ map (\<lambda>q. (q, Complete)) ps \<and>
           events_for obs cs = [Error e, Complete] \<and>
           subscribeHandler (observables s' ! a) = None"
proof -
  from assms(1) have s1: "s1 = s\<lparr>observables := observables s @
        [Observable\<lparr>subscribeHandler := Some Handler_throwError, err := Some p\<rparr>]\<rparr>"
    and a: "a = length (observables s)"
    by (auto simp: Observable_throwError_def new_def)
  from observer_chain_hd [OF assms(3)] obtain t where ps: "ps = obs # t" "obs \<notin> set t" by blast
  have o1: "observers s1 = observers s" by (simp add: s1)
  let ?s2 = "s1\<lparr>calls := calls s1 @ map (\<lambda>q. (q, Error e)) ps\<rparr>"
  from notify_chain_pass [OF assms(3) o1, of "Error e"]
  have n: "notify s1 obs (Error e) = Some (Returns (), ?s2)" by simp
  from notify_chain_pass [OF assms(3), of ?s2 Complete] o1
  have c: "notify ?s2 obs Complete =
      Some (Returns (), ?s2\<lparr>calls := calls ?s2 @ map (\<lambda>q. (q, Complete)) ps\<rparr>)" by simp
  let ?cs = "map (\<lambda>q. (q, Error e)) ps @ map (\<lambda>q. (q, Complete)) ps"
  let ?s' = "clear_subscribeHandler (?s2\<lparr>calls := calls ?s2 @ map (\<lambda>q. (q, Complete)) ps\<rparr>) a"
  have run: "subscribe s1 a obs = Some (Returns a, ?s')"
    using assms(2) n c by (simp add: subscribe_throwError subscribeHandler_throwError_def s1 a)
  have calls: "calls ?s' = calls s @ ?cs" by (simp add: s1)
  have ev: "events_for obs ?cs = [Error e, Complete]"
    using events_for_chain [OF ps(2), of "Error e"] events_for_chain [OF ps(2), of Complete] ps(1)
    by simp
  have h: "subscribeHandler (observables ?s' ! a) = None"
    by (simp add: s1 a clear_subscribeHandler_def)
  from run calls ev h show ?thesis by blast
qed

theorem throwError_subscribe_witness:
  "(\<exists>s'. subscribe (fst errorObservable) (snd errorObservable) 0
            = Some (Returns (snd errorObservable), s') \<and>
          calls s' = [(0, Error ''An error occured!''), (0, Complete)]) \<and>
   (\<exists>s'. subscribe (fst (Observable_throwError linked_state 0))
                   (snd (Observable_throwError linked_state 0)) 1
            = Some (Returns (snd (Observable_throwError linked_state 0)), s') \<and>
          calls s' = [(1, Error ''An error occured!''), (0, Error ''An error occured!''),
                      (1, Complete), (0, Complete)])"
  using
    throwError_subscribe [OF _ _ main_chain, of 0 "fst errorObservable" "snd errorObservable"
      "''An error occured!''"]
    throwError_subscribe [OF _ _ linked_chain, of 0 "fst (Observable_throwError linked_state 0)"
      "snd (Observable_throwError linked_state 0)" "''An error occured!''"]
  by (auto simp: errorObservable_def linked_state_def main_state_def)

subsection \<open>Completed Observables\<close>

text \<open>
  A subscription to an exhausted Observable, for any store that has the same Observables
  and keeps the mapping observers alive: the stores met on the way up a chain of mapped
  Observables are such stores.
\<close>

lemma exhausted_subscribe:
  assumes "exhausted s this"
    and "observables s1 = observables s"
    and "\<And>m d f. observers s m = Some (IntMapObserver d f) \<Longrightarrow>
           \<exists>d' f'. observers s1 m = Some (IntMapObserver d' f')"
  shows "\<exists>r s2. subscribe s1 this obs = Some (Returns r, s2) \<and> calls s2 = calls s1 \<and>
           observables s2 = observables s \<and> r < length (observables s) \<and>
           (\<forall>m d f. observers s m = Some (IntMapObserver d f) \<longrightarrow>
               (\<exists>d' f'. observers s2 m = Some (IntMapObserver d' f')))"
  using assms
proof (induction arbitrary: s1 obs rule: exhausted.induct)
  case (completed this)
  then show ?case
    by (subst subscribe.simps) auto
next
  case (mapped this m d f u)
  from mapped.prems(2) [OF mapped.hyps(4)] obtain d' f' where
    m: "observers s1 m = Some (IntMapObserver d' f')" by blast
  let ?s1 = "s1\<lparr>observers := (observers s1)(m \<mapsto> IntMapObserver (Some obs) f')\<rparr>"
  have "\<exists>r s2. subscribe ?s1 u m = Some (Returns r, s2) \<and> calls s2 = calls ?s1 \<and>
           observables s2 = observables s \<and> r < length (observables s) \<and>
           (\<forall>m d f. observers s m = Some (IntMapObserver d f) \<longrightarrow>
               (\<exists>d' f'. observers s2 m = Some (IntMapObserver d' f')))"
  proof (rule mapped.IH)
    show "observables ?s1 = observables s" using mapped.prems(1) by simp
  next
    fix k dk fk assume "observers s k = Some (IntMapObserver dk fk)"
    from mapped.prems(2) [OF this]
    show "\<exists>d' f'. observers ?s1 k = Some (IntMapObserver d' f')" by auto
  qed
  then show ?case
    using mapped.hyps(1,2,3,5) mapped.prems(1) m
    by (subst subscribe.simps) (auto simp: set_observer_def)
qed

text \<open>
  C4. For every Observable whose emission has run to completion (its handler is cleared, or
  it is mapped and its upstream is exhausted), a further \<open>subscribe(obs)\<close> returns, makes no
  call on any observer, so none on \<open>obs\<close>, leaves every Observable as it is, and the
  Subscription it returns is a live Observable.
\<close>

theorem exhausted_subscribe_no_calls:
  assumes "exhausted s this"
  shows "\<exists>r s'. subscribe s this obs = Some (Returns r, s') \<and> calls s' = calls s \<and>
           observables s' = observables s \<and> r < length (observables s')"
  using exhausted_subscribe [OF assms, of s obs] by auto

theorem exhausted_subscribe_no_calls_witness:
  "\<exists>s1. subscribe (fst mappedSeriesObservable) (snd mappedSeriesObservable) 0
           = Some (Returns 0, s1) \<and>
        exhausted s1 0 \<and> exhausted s1 1 \<and>
        (\<exists>r s'. subscribe s1 0 0 = Some (Returns r, s') \<and> calls s' = calls s1) \<and>
        (\<exists>r s'. subscribe s1 1 0 = Some (Returns r, s') \<and> calls s' = calls s1)"
proof -
  from mapped_run obtain s1 where
    run: "subscribe (fst mappedSeriesObservable) (snd mappedSeriesObservable) 0
            = Some (Returns 0, s1)"
    and os: "observables s1 =
          [Observable\<lparr>subscribeHandler := None, valuesp := Some 0, valuesCount := 7\<rparr>,
           Observable\<lparr>subscribeHandler := Some Handler_map, mappingObserver := Some 1,
                      mappingObservable := Some 0\<rparr>]"
    and m: "observers s1 1 = Some (IntMapObserver (Some 0) False)" by blast
  have e0: "exhausted s1 0"
    by (rule exhausted.completed) (simp_all add: os)
  have e1: "exhausted s1 1"
    by (rule exhausted.mapped [OF _ _ _ m _ e0]) (simp_all add: os)
  from exhausted_subscribe_no_calls [OF e0, of 0] exhausted_subscribe_no_calls [OF e1, of 0]
    run e0 e1
  show ?thesis by blast
qed

subsection \<open>Mapped Observables\<close>

text \<open>
  C5, as the claim states it: subscribing \<open>myIntObserver\<close> to \<open>from([1,-2,3,-4,5,-6,7])\<close>
  mapped with an \<open>IntMapObserver\<close> that starts with \<open>forward = true\<close> would deliver
  \<open>next(-4)\<close>, \<open>next(-8)\<close>, \<open>next(14)\<close>, \<open>complete()\<close>. The code does not.
\<close>

theorem map_from_counterexample:
  "\<not> (\<exists>r s'. subscribe (fst mappedSeriesObservable) (snd mappedSeriesObservable) 0
                  = Some (Returns r, s') \<and>
               calls_on 0 s' = [Next (- 4), Next (- 8), Next 14, Complete])"
  using mapped_run by (auto simp: calls_on_def)

text \<open>
  C5, amended. The flag is \<open>true\<close> at the first call, so the first value is forwarded and
  the second skipped: the observer receives \<open>next(2)\<close>, \<open>next(6)\<close>, \<open>next(10)\<close>, \<open>next(14)\<close>
  (the elements at indices 0, 2, 4, 6, doubled) and then \<open>complete()\<close>, while the mapping
  observer has received all seven values and \<open>complete()\<close>.
\<close>

theorem map_from_subscribe:
  "\<exists>s'. subscribe (fst mappedSeriesObservable) (snd mappedSeriesObservable) 0
           = Some (Returns (snd intSeriesObservable), s') \<and>
        calls_on 0 s' = [Next 2, Next 6, Next 10, Next 14, Complete] \<and>
        calls_on 1 s' = map Next series @ [Complete]"
  using mapped_run
  by (auto simp: calls_on_def series_def intSeriesObservable_def Observable_from_def main_state_def)

text \<open>
  C6, as the claim states it, for every observer: subscribing \<open>obs\<close> to
  \<open>throwError(e).map(m)\<close> would deliver \<open>obs.error(e)\<close> and then \<open>obs.complete()\<close>. With the
  mapping observer itself as \<open>obs\<close>, \<open>subscribeHandler_map\<close> makes it its own \<open>observer\<close>
  and its \<open>error\<close> calls itself for ever: the subscription does not return and
  \<open>complete()\<close> is never called.
\<close>

theorem throwError_map_subscribe_counterexample:
  "subscribe (fst (Observable_map (fst errorObservable) (snd errorObservable) 1))
             (snd (Observable_map (fst errorObservable) (snd errorObservable) 1)) 1 = None \<and>
   \<not> (\<exists>r s'. subscribe (fst (Observable_map (fst errorObservable) (snd errorObservable) 1))
                    (snd (Observable_map (fst errorObservable) (snd errorObservable) 1)) 1
                 = Some (r, s') \<and>
               calls_on 1 s' = [Error ''An error occured!'', Complete])"
  by (simp add: errorObservable_def Observable_throwError_def Observable_map_def Observable_def
      main_state_def subscribe_map subscribeHandler_map_def set_observer_def
      subscribe_throwError subscribeHandler_throwError_def
      notify_self_cycle_Error [where f = True])

text \<open>
  C6, amended. For every error value \<open>e\<close>, every \<open>IntMapObserver\<close> \<open>m\<close> (whatever its flag and
  its previous \<open>observer\<close>) and every observer \<open>obs\<close> whose \<open>observer\<close> links end at an
  \<open>IntObserver\<close> without passing through \<open>m\<close>: subscribing \<open>obs\<close> to \<open>throwError(e).map(m)\<close>
  returns, and the calls made are exactly \<open>error(e)\<close> on \<open>m\<close>, on \<open>obs\<close> and on each observer
  down its chain, then \<open>complete()\<close> on the same observers; so \<open>obs.error(e)\<close>, then
  \<open>obs.complete()\<close>, and \<open>m.next\<close> is never called.
\<close>

theorem throwError_map_subscribe:
  assumes "Observable_throwError s p = (s1, x)"
    and "Observable_map s1 x m = (s2, a)"
    and "emem s p = Some e"
    and "observers s m = Some (IntMapObserver d f)"
    and "observer_chain (observers s) obs ps"
    and "m \<notin> set ps"
  shows "\<exists>s' cs. subscribe s2 a obs = Some (Returns x, s') \<and> calls s' = calls s @ cs \<and>
           cs = map (\<lambda>q. (q, Error e)) (m # ps) @ map (\<lambda>q. (q, Complete)) (m # ps) \<and>
           events_for obs cs = [Error e, Complete] \<and>
           events_for m cs = [Error e, Complete]"
proof -
  from assms(1) have s1: "s1 = s\<lparr>observables := observables s @
        [Observable\<lparr>subscribeHandler := Some Handler_throwError, err := Some p\<rparr>]\<rparr>"
    and x: "x = length (observables s)"
    by (auto simp: Observable_throwError_def new_def)
  from assms(2) have s2: "s2 = s1\<lparr>observables := observables s1 @
        [Observable\<lparr>subscribeHandler := Some Handler_map, mappingObserver := Some m,
                    mappingObservable := Some x\<rparr>]\<rparr>"
    and a: "a = length (observables s1)"
    by (auto simp: Observable_map_def new_def)
  from observer_chain_hd [OF assms(5)] obtain t where ps: "ps = obs # t" "obs \<notin> set t" by blast
  with assms(6) have neq: "m \<noteq> obs" "obs \<noteq> m" "m \<notin> set t" by auto
  let ?om = "(observers s)(m \<mapsto> IntMapObserver (Some obs) f)"
  let ?s3 = "s2\<lparr>observers := ?om\<rparr>"
  have "observer_chain ?om obs ps" using assms(5,6) by (rule observer_chain_upd)
  then have chain: "observer_chain ?om m (m # ps)"
    using assms(6) by (intro observer_chain.link [where f = f and d = obs]) simp_all
  let ?s4 = "?s3\<lparr>calls := calls ?s3 @ map (\<lambda>q. (q, Error e)) (m # ps)\<rparr>"
  from notify_chain_pass [OF chain, of ?s3 "Error e"]
  have n: "notify ?s3 m (Error e) = Some (Returns (), ?s4)" by (simp add: s2 s1)
  from notify_chain_pass [OF chain, of ?s4 Complete]
  have c: "notify ?s4 m Complete =
      Some (Returns (), ?s4\<lparr>calls := calls ?s4 @ map (\<lambda>q. (q, Complete)) (m # ps)\<rparr>)"
    by (simp add: s2 s1)
  let ?cs = "map (\<lambda>q. (q, Error e)) (m # ps) @ map (\<lambda>q. (q, Complete)) (m # ps)"
  let ?s' = "clear_subscribeHandler
      (?s4\<lparr>calls := calls ?s4 @ map (\<lambda>q. (q, Complete)) (m # ps)\<rparr>) x"
  have run: "subscribe s2 a obs = Some (Returns x, ?s')"
    using assms(3,4) n c
    by (simp add: s2 a s1 x subscribe_map subscribeHandler_map_def set_observer_def
        subscribe_throwError subscribeHandler_throwError_def nth_append)
  have calls: "calls ?s' = calls s @ ?cs" by (simp add: s2 s1)
  have evo: "events_for obs ?cs = [Error e, Complete]"
    using events_for_chain [OF ps(2), of "Error e"] events_for_chain [OF ps(2), of Complete]
      ps(1) neq by simp
  have evm: "events_for m ?cs = [Error e, Complete]"
    using events_for_chain [OF assms(6), of "Error e"] events_for_chain [OF assms(6), of Complete]
    by simp
  from run calls evo evm show ?thesis by blast
qed

theorem throwError_map_subscribe_witness:
  "\<exists>s'. subscribe (fst (Observable_map (fst errorObservable) (snd errorObservable) 1))
                  (snd (Observable_map (fst errorObservable) (snd errorObservable) 1)) 0
           = Some (Returns (snd errorObservable), s') \<and>
        calls s' = [(1, Error ''An error occured!''), (0, Error ''An error occured!''),
                    (1, Complete), (0, Complete)]"
  using throwError_map_subscribe [OF _ _ _ _ main_chain,
      of 0 "fst errorObservable" "snd errorObservable" 1
      "fst (Observable_map (fst errorObservable) (snd errorObservable) 1)"
      "snd (Observable_map (fst errorObservable) (snd errorObservable) 1)"
      "''An error occured!''" None True]
  by (auto simp: errorObservable_def main_state_def)

subsection \<open>Terminal signals\<close>




subsection \<open>The Subscription returned\<close>

text \<open>
  The Observable at the upstream end is not a mapped one, and it is the one whose
  Subscription \<open>subscribe\<close> returns.
\<close>

lemma upstream_root_not_mapped:
  "upstream_root os this r \<Longrightarrow> subscribeHandler (os ! r) \<noteq> Some Handler_map"
  by (induction rule: upstream_root.induct) auto

lemma subscribe_root:
  assumes "subscribe s this obs = Some y"
  shows "\<forall>r s'. y = (Returns r, s') \<longrightarrow> upstream_root (observables s) this r"
proof (rule subscribe.raw_induct [OF _ assms], goal_cases)
  case (1 subscribe s this obs y)
  show ?case
    using "1"(2)
    by (auto split: if_splits option.splits handler.splits
          elim!: and_then_cases set_observer_cases
          dest!: "1"(1) handler_returns_this
          intro: upstream_root.self)
       (rule upstream_root.up)
qed

text \<open>
  C8, as the claim states it: \<open>subscribe\<close> would return a Subscription bound to the
  receiver, also for a mapped Observable. In the test case \<open>map\<close> of \<open>main\<close> the receiver is
  the mapped Observable and the Subscription returned is the series Observable upstream.
\<close>

theorem subscribe_returns_receiver_counterexample:
  "\<exists>r s'. subscribe (fst mappedSeriesObservable) (snd mappedSeriesObservable) 0
            = Some (Returns r, s') \<and>
          r = snd intSeriesObservable \<and> r \<noteq> snd mappedSeriesObservable"
  using mapped_run
  by (auto simp: mappedSeriesObservable_def intSeriesObservable_def Observable_map_def
      Observable_from_def main_state_def)

text \<open>
  C8, amended. When \<open>subscribe\<close> returns, the Subscription is the Observable at the upstream
  end of the receiver's chain of \<open>mappingObservable\<close> links: the receiver itself when its
  handler is not \<open>subscribeHandler_map\<close> (the three plain modes, and a completed one), and
  another Observable, never the receiver, when it is mapped.
\<close>

theorem subscribe_returns_root:
  assumes "subscribe s this obs = Some (Returns r, s')"
  shows "upstream_root (observables s) this r \<and>
         (r = this \<longleftrightarrow> subscribeHandler (observables s ! this) \<noteq> Some Handler_map)"
proof -
  from subscribe_root [OF assms] have root: "upstream_root (observables s) this r" by simp
  from root have "subscribeHandler (observables s ! this) \<noteq> Some Handler_map \<Longrightarrow> r = this"
    by (cases rule: upstream_root.cases) auto
  with root upstream_root_not_mapped [OF root] show ?thesis by auto
qed

theorem subscribe_returns_root_witness:
  "\<exists>s'. subscribe (fst mappedSeriesObservable) (snd mappedSeriesObservable) 0
           = Some (Returns 0, s') \<and>
        upstream_root (observables (fst mappedSeriesObservable)) (snd mappedSeriesObservable) 0 \<and>
        subscribeHandler (observables (fst mappedSeriesObservable) ! snd mappedSeriesObservable)
          = Some Handler_map"
proof -
  from mapped_run obtain s' where
    run: "subscribe (fst mappedSeriesObservable) (snd mappedSeriesObservable) 0
            = Some (Returns 0, s')" by blast
  have "snd mappedSeriesObservable \<noteq> 0"
    by (simp add: mappedSeriesObservable_def intSeriesObservable_def Observable_map_def
        Observable_from_def main_state_def)
  with subscribe_returns_root [OF run] run show ?thesis by auto
qed

subsection \<open>\<open>unsubscribe\<close>\<close>

text \<open>
  C9. On every live Observable, whatever its handler (so before any subscription and after
  completion alike), \<open>unsubscribe\<close> returns without a fault and leaves \<open>values\<close> and \<open>err\<close>
  null and \<open>valuesCount\<close> 0; a second \<open>unsubscribe\<close> changes nothing more. The values are
  not delivered again: a \<open>subscribe\<close> of an \<open>IntObserver\<close> after it on this Observable
  (when it is not a mapped one, which stores no values of its own) ends with no call made
  other than \<open>complete()\<close>.
\<close>

theorem unsubscribe_clears:
  assumes "this < length (observables s)"
  shows "\<exists>s1. unsubscribe s this = Some (Returns (), s1) \<and>
           valuesp (observables s1 ! this) = None \<and>
           valuesCount (observables s1 ! this) = 0 \<and>
           err (observables s1 ! this) = None \<and>
           unsubscribe s1 this = Some (Returns (), s1) \<and>
           (subscribeHandler (observables s ! this) \<noteq> Some Handler_map \<longrightarrow>
            observers s obs = Some (IntObserver n) \<longrightarrow>
              (\<exists>r s2 cs. subscribe s1 this obs = Some (r, s2) \<and> calls s2 = calls s @ cs \<and>
                          set cs \<subseteq> {(obs, Complete)}))"
proof -
  let ?s1 = "s\<lparr>observables := (observables s)[this := (observables s ! this)
         \<lparr>valuesp := None, valuesCount := 0, err := None\<rparr>]\<rparr>"
  have 1: "unsubscribe s this = Some (Returns (), ?s1)"
    using assms by (simp add: unsubscribe_def)
  have 2: "unsubscribe ?s1 this = Some (Returns (), ?s1)"
    using assms by (simp add: unsubscribe_def)
  have 3: "\<exists>r s2 cs. subscribe ?s1 this obs = Some (r, s2) \<and> calls s2 = calls s @ cs \<and>
                          set cs \<subseteq> {(obs, Complete)}"
    if "subscribeHandler (observables s ! this) \<noteq> Some Handler_map"
      "observers s obs = Some (IntObserver n)"
  proof (cases "subscribeHandler (observables s ! this)")
    case None
    then show ?thesis using assms by (simp add: subscribe_completed)
  next
    case (Some h)
    with that(1) show ?thesis
      using assms that(2)
      by (cases h)
         (simp_all add: subscribe_of subscribe_throwError subscribe_from subscribeHandler_of_def
           subscribeHandler_throwError_def subscribeHandler_from_def from_loop_end
           notify_IntObserver [where n = n] clear_subscribeHandler_def)
  qed
  show ?thesis
    using 1 2 3 assms by (intro exI [of _ ?s1]) simp
qed

theorem unsubscribe_clears_witness:
  "(\<exists>s1. unsubscribe (fst singleIntObservable) (snd singleIntObservable) = Some (Returns (), s1) \<and>
         valuesp (observables s1 ! snd singleIntObservable) = None \<and>
         unsubscribe s1 (snd singleIntObservable) = Some (Returns (), s1) \<and>
         (\<exists>r s2 cs. subscribe s1 (snd singleIntObservable) 0 = Some (r, s2) \<and>
            calls s2 = calls (fst singleIntObservable) @ cs \<and> set cs \<subseteq> {(0, Complete)}))"
  using unsubscribe_clears [of "snd singleIntObservable" "fst singleIntObservable" 0 "''IntObs''"]
  by (auto simp: singleIntObservable_def Observable_of_def Observable_def main_state_def)

text \<open>
  C10. \<open>unsubscribe\<close> leaves the handler field as it is. So after \<open>unsubscribe\<close> on an
  Observable that still has its handler, \<open>subscribe\<close> runs the handler: that of \<open>of\<close> and
  that of \<open>throwError\<close> dereference the pointer \<open>unsubscribe\<close> has set to \<open>nullptr\<close>, before
  any call on the observer; that of \<open>from\<close> finds the count 0, makes no \<open>next\<close> call and
  calls \<open>complete()\<close> once (on an \<open>IntObserver\<close>, which returns).
\<close>

theorem unsubscribe_keeps_handler:
  assumes "this < length (observables s)"
    and "unsubscribe s this = Some (Returns (), s1)"
  shows "subscribeHandler (observables s1 ! this) = subscribeHandler (observables s ! this) \<and>
    (subscribeHandler (observables s ! this) = Some Handler_of \<longrightarrow>
       subscribe s1 this obs = Some (Faults NullPointer, s1)) \<and>
    (subscribeHandler (observables s ! this) = Some Handler_throwError \<longrightarrow>
       subscribe s1 this obs = Some (Faults NullPointer, s1)) \<and>
    (subscribeHandler (observables s ! this) = Some Handler_from \<longrightarrow>
     observers s obs = Some (IntObserver n) \<longrightarrow>
       (\<exists>s2. subscribe s1 this obs = Some (Returns this, s2) \<and>
             calls s2 = calls s @ [(obs, Complete)] \<and>
             subscribeHandler (observables s2 ! this) = None))"
proof -
  from assms have s1: "s1 = s\<lparr>observables := (observables s)[this := (observables s ! this)
         \<lparr>valuesp := None, valuesCount := 0, err := None\<rparr>]\<rparr>"
    by (simp add: unsubscribe_def)
  show ?thesis
    unfolding s1 using assms(1)
    by (simp add: subscribe_of subscribe_throwError subscribe_from subscribeHandler_of_def
        subscribeHandler_throwError_def subscribeHandler_from_def from_loop_end
        notify_IntObserver [where n = n] clear_subscribeHandler_def)
qed

theorem unsubscribe_keeps_handler_witness:
  "(\<exists>s1. unsubscribe (fst singleIntObservable) (snd singleIntObservable) = Some (Returns (), s1) \<and>
         subscribe s1 (snd singleIntObservable) 0 = Some (Faults NullPointer, s1)) \<and>
   (\<exists>s1. unsubscribe (fst errorObservable) (snd errorObservable) = Some (Returns (), s1) \<and>
         subscribe s1 (snd errorObservable) 0 = Some (Faults NullPointer, s1)) \<and>
   (\<exists>s1 s2. unsubscribe (fst intSeriesObservable) (snd intSeriesObservable) = Some (Returns (), s1) \<and>
         subscribe s1 (snd intSeriesObservable) 0 = Some (Returns (snd intSeriesObservable), s2) \<and>
         calls s2 = [(0, Complete)])"
  using
    unsubscribe_keeps_handler [OF _ unsubscribe_Returns,
      of "snd singleIntObservable" "fst singleIntObservable" 0 "''IntObs''"]
    unsubscribe_keeps_handler [OF _ unsubscribe_Returns,
      of "snd errorObservable" "fst errorObservable" 0 "''IntObs''"]
    unsubscribe_keeps_handler [OF _ unsubscribe_Returns,
      of "snd intSeriesObservable" "fst intSeriesObservable" 0 "''IntObs''"]
  by (auto simp: singleIntObservable_def errorObservable_def intSeriesObservable_def
      Observable_of_def Observable_throwError_def Observable_from_def Observable_def
      unsubscribe_def main_state_def)

end
